theory Spec2Isabelle
  imports Complex_Main "HOL-Library.Word"
begin

section \<open>JavaScript numbers: IEEE 754 binary64 arithmetic\<close>

text \<open>
  Every arithmetic expression of \<^verbatim>\<open>src/App.tsx\<close> is evaluated on JavaScript numbers,
  that is on binary64 values: each of \<^verbatim>\<open>*\<close>, \<^verbatim>\<open>+\<close>, \<^verbatim>\<open>-\<close>, \<^verbatim>\<open>/\<close> returns the
  exact result rounded to the nearest representable value, ties to the even significand.
  A finite binary64 value is the real number it denotes. All values that the pixel loop
  computes are built from bytes and three literals and stay far below \<open>2 ^ 1024\<close>, so
  infinities and NaN do not arise and are not part of the model; gradual underflow
  (the least exponent \<open>- 1074\<close>) is.
\<close>

text \<open>Rounding to the nearest integer, ties to even.\<close>

definition rhe :: "real \<Rightarrow> int" where
  "rhe x = (let f = \<lfloor>x\<rfloor>; d = x - of_int f in
     if d < 1 / 2 then f else if 1 / 2 < d then f + 1 else if even f then f else f + 1)"

lemma ilog2_term_halve:
  fixes x :: real
  assumes "2 \<le> x"
  shows "nat \<lfloor>x / 2\<rfloor> + 2 * nat \<lceil>1 / (x / 2)\<rceil> < nat \<lfloor>x\<rfloor> + 2 * nat \<lceil>1 / x\<rceil>"
proof -
  have c1: "\<lceil>1 / x\<rceil> = 1"
    using assms by (intro ceiling_unique) (simp_all add: field_simps)
  have c2: "\<lceil>1 / (x / 2)\<rceil> = 1"
    using assms by (intro ceiling_unique) (simp_all add: field_simps)
  have "of_int (\<lfloor>x / 2\<rfloor> + 1) \<le> x"
  proof -
    have "of_int \<lfloor>x / 2\<rfloor> \<le> x / 2" by (rule of_int_floor_le)
    then show ?thesis using assms by simp
  qed
  then have "\<lfloor>x / 2\<rfloor> + 1 \<le> \<lfloor>x\<rfloor>" by (simp only: le_floor_iff)
  moreover have "0 \<le> \<lfloor>x / 2\<rfloor>" using assms by simp
  ultimately show ?thesis unfolding c1 c2 by arith
qed

lemma ilog2_term_double:
  fixes x :: real
  assumes "0 < x" "x < 1"
  shows "nat \<lfloor>2 * x\<rfloor> + 2 * nat \<lceil>1 / (2 * x)\<rceil> < nat \<lfloor>x\<rfloor> + 2 * nat \<lceil>1 / x\<rceil>"
proof -
  have f0: "\<lfloor>x\<rfloor> = 0" using assms by (intro floor_unique) simp_all
  have f1: "\<lfloor>2 * x\<rfloor> \<le> 1" using assms by (simp add: floor_le_iff)
  have n2: "2 \<le> \<lceil>1 / x\<rceil>"
  proof -
    have "1 < 1 / x" using assms by (simp add: field_simps)
    then have "1 < \<lceil>1 / x\<rceil>" by (simp add: less_ceiling_iff)
    then show ?thesis by simp
  qed
  have "1 / (2 * x) \<le> of_int (\<lceil>1 / x\<rceil> - 1)"
  proof -
    have "1 / x \<le> of_int \<lceil>1 / x\<rceil>" by (rule le_of_int_ceiling)
    then have "1 / (2 * x) \<le> of_int \<lceil>1 / x\<rceil> / 2" by (simp add: field_simps)
    also have "\<dots> \<le> of_int (\<lceil>1 / x\<rceil> - 1)"
    proof -
      have "(2::real) \<le> of_int \<lceil>1 / x\<rceil>" using n2 by (metis of_int_le_iff of_int_numeral)
      then show ?thesis by simp
    qed
    finally show ?thesis .
  qed
  then have "\<lceil>1 / (2 * x)\<rceil> \<le> \<lceil>1 / x\<rceil> - 1" by (simp only: ceiling_le_iff)
  with f1 n2 show ?thesis unfolding f0 by arith
qed

text \<open>The binary exponent of a positive number: \<open>2 powi ilog2 x \<le> x < 2 powi (ilog2 x + 1)\<close>.\<close>

function ilog2 :: "real \<Rightarrow> int" where
  "ilog2 x = (if x \<le> 0 then 0 else if 2 \<le> x then ilog2 (x / 2) + 1
              else if x < 1 then ilog2 (2 * x) - 1 else 0)"
  by pat_completeness auto
termination
  by (relation "measure (\<lambda>x. nat \<lfloor>x\<rfloor> + 2 * nat \<lceil>1 / x\<rceil>)")
     (simp_all only: wf_measure in_measure ilog2_term_halve ilog2_term_double not_le)

declare ilog2.simps [simp del]

text \<open>
  Rounding a real number to binary64: the significand has 53 bits, so the unit in the
  last place of \<open>x\<close> is \<open>2 powi (ilog2 \<bar>x\<bar> - 52)\<close>, and never less than \<open>2 powi - 1074\<close>.
\<close>

definition ulp_exp :: "real \<Rightarrow> int" where
  "ulp_exp x = max (ilog2 \<bar>x\<bar> - 52) (- 1074)"

definition fl :: "real \<Rightarrow> real" where
  "fl x = (let e = ulp_exp x in of_int (rhe (x / 2 powi e)) * 2 powi e)"

definition fmul :: "real \<Rightarrow> real \<Rightarrow> real" where
  "fmul x y = fl (x * y)"

definition fadd :: "real \<Rightarrow> real \<Rightarrow> real" where
  "fadd x y = fl (x + y)"

definition fsub :: "real \<Rightarrow> real \<Rightarrow> real" where
  "fsub x y = fl (x - y)"

definition fdiv :: "real \<Rightarrow> real \<Rightarrow> real" where
  "fdiv x y = fl (x / y)"

text \<open>
  A store into \<^verbatim>\<open>imageData.data\<close>, a \<^verbatim>\<open>Uint8ClampedArray\<close>, converts the number with
  ToUint8Clamp: clamp to \<open>[0, 255]\<close>, then round to the nearest integer, ties to even.
\<close>

definition toUint8Clamp :: "real \<Rightarrow> 8 word" where
  "toUint8Clamp x = word_of_int (rhe (min (max x 0) 255))"

section \<open>hexToRgb\<close>

text \<open>
  A string is a list of characters. A JavaScript string is a sequence of UTF-16 code
  units and a \<^typ>\<open>char\<close> is a byte; the regular expression of \<^verbatim>\<open>hexToRgb\<close> accepts
  only the character \<^verbatim>\<open>#\<close> and the 22 hexadecimal digits, all of them ASCII, and
  rejects every other unit or byte alike.
\<close>

text \<open>
  The object that \<^verbatim>\<open>hexToRgb\<close> returns. Its components are results of \<^verbatim>\<open>parseInt\<close>:
  numbers that are non-negative integers.
\<close>

record rgb =
  r :: nat
  g :: nat
  b :: nat

text \<open>
  The character class \<^verbatim>\<open>[a-f\d]\<close> under the flag \<^verbatim>\<open>i\<close>: the value of a hexadecimal
  digit, \<open>None\<close> for every other character.
\<close>

definition hexDigit :: "char \<Rightarrow> nat option" where
  "hexDigit c = (let n = (of_char c :: nat) in
     if 48 \<le> n \<and> n \<le> 57 then Some (n - 48)
     else if 97 \<le> n \<and> n \<le> 102 then Some (n - 87)
     else if 65 \<le> n \<and> n \<le> 70 then Some (n - 55)
     else None)"

definition isHex :: "char \<Rightarrow> bool" where
  "isHex c = (hexDigit c \<noteq> None)"

text \<open>
  \<^verbatim>\<open>parseInt(s, 16)\<close> reads the longest prefix of hexadecimal digits. Its callers pass a
  captured group, which is two such digits, so that the sign, white space, the \<^verbatim>\<open>0x\<close>
  prefix and the result NaN of an empty prefix do not arise.
\<close>

definition parseInt16 :: "string \<Rightarrow> nat" where
  "parseInt16 s = foldl (\<lambda>n c. 16 * n + (case hexDigit c of Some d \<Rightarrow> d | None \<Rightarrow> 0)) 0
     (takeWhile isHex s)"

text \<open>
  The three groups \<^verbatim>\<open>([a-f\d]{2})([a-f\d]{2})([a-f\d]{2})$\<close>: exactly six characters are
  left and each is a hexadecimal digit.
\<close>

fun match_groups :: "string \<Rightarrow> (string \<times> string \<times> string) option" where
  "match_groups [c1, c2, c3, c4, c5, c6] =
     (if isHex c1 \<and> isHex c2 \<and> isHex c3 \<and> isHex c4 \<and> isHex c5 \<and> isHex c6
      then Some ([c1, c2], [c3, c4], [c5, c6]) else None)"
| "match_groups _ = None"

text \<open>
  \<^verbatim>\<open>/^#?([a-f\d]{2})([a-f\d]{2})([a-f\d]{2})$/i.exec(hex)\<close>: the optional \<^verbatim>\<open>#\<close> is greedy,
  and the matcher backtracks to the empty alternative when the rest does not match.
\<close>

definition regex_exec :: "string \<Rightarrow> (string \<times> string \<times> string) option" where
  "regex_exec hex =
     (case hex of
        [] \<Rightarrow> match_groups hex
      | c # cs \<Rightarrow>
          if c = CHR ''#'' then
            (case match_groups cs of Some m \<Rightarrow> Some m | None \<Rightarrow> match_groups hex)
          else match_groups hex)"

definition hexToRgb :: "string \<Rightarrow> rgb option" where
  "hexToRgb hex =
     (case regex_exec hex of
        Some (g1, g2, g3) \<Rightarrow> Some \<lparr>r = parseInt16 g1, g = parseInt16 g2, b = parseInt16 g3\<rparr>
      | None \<Rightarrow> None)"

section \<open>The pixel loop of processImage\<close>

text \<open>The literals \<^verbatim>\<open>0.299\<close>, \<^verbatim>\<open>0.587\<close> and \<^verbatim>\<open>0.114\<close> denote the nearest binary64 values.\<close>

definition luminance :: "8 word \<Rightarrow> 8 word \<Rightarrow> 8 word \<Rightarrow> real" where
  "luminance r_old g_old b_old =
     fadd (fadd (fmul (fl (299 / 1000)) (real (unat r_old)))
                (fmul (fl (587 / 1000)) (real (unat g_old))))
          (fmul (fl (114 / 1000)) (real (unat b_old)))"

definition intensity :: "real \<Rightarrow> real" where
  "intensity lum = fsub 1 (fdiv lum 255)"

definition blend :: "nat \<Rightarrow> real \<Rightarrow> real" where
  "blend new k = fadd (fmul (real new) k) (fmul 255 (fsub 1 k))"

text \<open>
  One iteration of the loop body at index \<open>i\<close>. A read past the end of the array gives
  \<^verbatim>\<open>undefined\<close>, and \<^verbatim>\<open>undefined > 0\<close> is false.
\<close>

definition pixel_step :: "rgb \<Rightarrow> nat \<Rightarrow> 8 word list \<Rightarrow> 8 word list" where
  "pixel_step newColorRgb i dat =
     (if i + 3 < length dat \<and> 0 < dat ! (i + 3) then
        let r_old = dat ! i;
            g_old = dat ! (i + 1);
            b_old = dat ! (i + 2);
            k = intensity (luminance r_old g_old b_old)
        in dat[i := toUint8Clamp (blend (r newColorRgb) k),
               i + 1 := toUint8Clamp (blend (g newColorRgb) k),
               i + 2 := toUint8Clamp (blend (b newColorRgb) k)]
      else dat)"

lemma length_pixel_step: "length (pixel_step c i dat) = length dat"
  by (simp add: pixel_step_def Let_def)

text \<open>\<^verbatim>\<open>for (let i = 0; i < data.length; i += 4) { ... }\<close>, entered at index \<open>i\<close>.\<close>

function recolor_loop :: "rgb \<Rightarrow> nat \<Rightarrow> 8 word list \<Rightarrow> 8 word list" where
  "recolor_loop newColorRgb i dat =
     (if i < length dat then recolor_loop newColorRgb (i + 4) (pixel_step newColorRgb i dat)
      else dat)"
  by pat_completeness auto
termination
  by (relation "measure (\<lambda>(c, i, dat). length dat - i)") (auto simp: length_pixel_step)

declare recolor_loop.simps [simp del]

record imageData =
  width :: nat
  height :: nat
  data :: "8 word list"

text \<open>The loop on the pixel buffer of an \<^verbatim>\<open>ImageData\<close>, which is mutated in place.\<close>

definition recolor :: "rgb \<Rightarrow> imageData \<Rightarrow> imageData" where
  "recolor newColorRgb img = img\<lparr>data := recolor_loop newColorRgb 0 (data img)\<rparr>"

section \<open>The component state and its handlers\<close>

record app_state =
  selectedColor :: string
  originalImage :: "string option"
  processedImage :: "string option"
  isLoading :: bool
  error :: "string option"

text \<open>
  What the browser contributes to one run of \<^verbatim>\<open>processImage\<close>: whether the canvas is
  mounted and gives a 2d context, the outcome of loading the data URL into an \<^verbatim>\<open>Image\<close>
  (\<open>None\<close> when \<^verbatim>\<open>onerror\<close> fires, the pixels drawn on the canvas otherwise, \<open>None\<close> inside
  when \<^verbatim>\<open>getImageData\<close> throws), and the encoder behind \<^verbatim>\<open>toDataURL\<close>.
\<close>

record browser =
  canvas_current :: bool
  ctx_2d :: bool
  img_load :: "string \<Rightarrow> imageData option option"
  toDataURL :: "imageData \<Rightarrow> string"

text \<open>
  A value of type \<^verbatim>\<open>string | null\<close> in a condition: \<^verbatim>\<open>null\<close> and the empty string are
  falsy.
\<close>

definition truthy :: "string option \<Rightarrow> bool" where
  "truthy v = (case v of None \<Rightarrow> False | Some s \<Rightarrow> s \<noteq> [])"

text \<open>
  One run of \<^verbatim>\<open>processImage\<close> up to the end of its \<^verbatim>\<open>onload\<close> or \<^verbatim>\<open>onerror\<close> callback.
  The first test, \<^verbatim>\<open>!originalImage || !canvasRef.current\<close>, returns on \<^verbatim>\<open>null\<close> and on the
  empty string.
\<close>

definition processImage :: "browser \<Rightarrow> app_state \<Rightarrow> app_state" where
  "processImage br s =
     (case originalImage s of
        None \<Rightarrow> s
      | Some src \<Rightarrow>
          if src = [] \<or> \<not> canvas_current br then s
          else
            let s1 = s\<lparr>isLoading := True, error := None\<rparr> in
            (case (ctx_2d br, hexToRgb (selectedColor s)) of
               (True, Some newColorRgb) \<Rightarrow>
                 (case img_load br src of
                    None \<Rightarrow>
                      s1\<lparr>error := Some ''Failed to load the image. It might be an invalid format.'',
                         isLoading := False\<rparr>
                  | Some None \<Rightarrow>
                      s1\<lparr>error := Some ''Could not process the image. Please ensure it is a valid PNG file.'',
                         isLoading := False\<rparr>
                  | Some (Some img) \<Rightarrow>
                      s1\<lparr>processedImage := Some (toDataURL br (recolor newColorRgb img)),
                         isLoading := False\<rparr>)
             | _ \<Rightarrow> s1\<lparr>error := Some ''Invalid color format.'', isLoading := False\<rparr>))"

text \<open>The effect that follows a change of \<^verbatim>\<open>originalImage\<close> or \<^verbatim>\<open>selectedColor\<close>.\<close>

definition useEffect :: "browser \<Rightarrow> app_state \<Rightarrow> app_state" where
  "useEffect br s = (if truthy (originalImage s) then processImage br s else s)"

text \<open>
  A file of the input element: its declared media type and what \<^verbatim>\<open>readAsDataURL\<close> gives
  (\<open>None\<close> when the reader's \<^verbatim>\<open>onerror\<close> fires).
\<close>

record upload_file =
  ftype :: string
  readAsDataURL :: "string option"

definition handleFileChange :: "upload_file option \<Rightarrow> app_state \<Rightarrow> app_state" where
  "handleFileChange f s =
     (case f of
        Some picked \<Rightarrow>
          if ftype picked = ''image/png'' then
            (case readAsDataURL picked of
               Some url \<Rightarrow> s\<lparr>error := None, originalImage := Some url, processedImage := None\<rparr>
             | None \<Rightarrow> s\<lparr>error := Some ''Failed to read the file.''\<rparr>)
          else s\<lparr>error := Some ''Please upload a valid PNG file.'',
                 originalImage := None, processedImage := None\<rparr>
      | None \<Rightarrow> s\<lparr>error := Some ''Please upload a valid PNG file.'',
                  originalImage := None, processedImage := None\<rparr>)"

definition handleColorChange :: "string \<Rightarrow> app_state \<Rightarrow> app_state" where
  "handleColorChange v s = s\<lparr>selectedColor := v\<rparr>"

text \<open>An upload, and a change of the colour, each followed by the effect.\<close>

definition upload :: "browser \<Rightarrow> upload_file option \<Rightarrow> app_state \<Rightarrow> app_state" where
  "upload br f s = useEffect br (handleFileChange f s)"

definition pick_color :: "browser \<Rightarrow> string \<Rightarrow> app_state \<Rightarrow> app_state" where
  "pick_color br v s = useEffect br (handleColorChange v s)"

section \<open>Observations used by the properties\<close>

text \<open>The four channels of pixel \<open>p\<close> of a buffer, in the order R, G, B, A.\<close>

definition pixel_at :: "8 word list \<Rightarrow> nat \<Rightarrow> 8 word \<times> 8 word \<times> 8 word \<times> 8 word" where
  "pixel_at dat p = (dat ! (4 * p), dat ! (4 * p + 1), dat ! (4 * p + 2), dat ! (4 * p + 3))"

text \<open>
  What one iteration of the loop does to the four channels of its pixel; the lemma
  \<open>pixel_at_recolor\<close> below proves that the loop computes exactly this for every pixel.
\<close>

definition recolor_pixel :: "rgb \<Rightarrow> 8 word \<times> 8 word \<times> 8 word \<times> 8 word \<Rightarrow> 8 word \<times> 8 word \<times> 8 word \<times> 8 word" where
  "recolor_pixel c px =
     (case px of (r_old, g_old, b_old, alpha) \<Rightarrow>
        if 0 < alpha then
          let k = intensity (luminance r_old g_old b_old)
          in (toUint8Clamp (blend (r c) k), toUint8Clamp (blend (g c) k),
              toUint8Clamp (blend (b c) k), alpha)
        else px)"

text \<open>
  The pattern of the specification, \<^verbatim>\<open>^#?[0-9a-fA-F]{6}$\<close>, written from its words: the
  characters of the class, the string without its optional leading \<^verbatim>\<open>#\<close>, six characters
  of the class.
\<close>

definition spec_hex_char :: "char \<Rightarrow> bool" where
  "spec_hex_char c = (c \<in> set ''0123456789abcdefABCDEF'')"

definition strip_hash :: "string \<Rightarrow> string" where
  "strip_hash s = (case s of [] \<Rightarrow> [] | c # cs \<Rightarrow> if c = CHR ''#'' then cs else s)"

definition spec_color_pattern :: "string \<Rightarrow> bool" where
  "spec_color_pattern s = (length (strip_hash s) = 6 \<and> list_all spec_hex_char (strip_hash s))"

text \<open>Upper case of the ASCII letters, as \<^verbatim>\<open>toUpperCase\<close> gives on such a string.\<close>

definition upper_char :: "char \<Rightarrow> char" where
  "upper_char c =
     (case map_of (zip ''abcdefghijklmnopqrstuvwxyz'' ''ABCDEFGHIJKLMNOPQRSTUVWXYZ'') c of
        Some u \<Rightarrow> u | None \<Rightarrow> c)"

definition toUpperCase :: "string \<Rightarrow> string" where
  "toUpperCase s = map upper_char s"

text \<open>
  The value of a hexadecimal digit as its position in \<^verbatim>\<open>0123456789ABCDEF\<close>, and a colour
  written again as six upper-case hexadecimal digits.
\<close>

definition spec_hex_value :: "char \<Rightarrow> nat" where
  "spec_hex_value c = length (takeWhile (\<lambda>x. x \<noteq> upper_char c) ''0123456789ABCDEF'')"

definition hex_pair_upper :: "nat \<Rightarrow> string" where
  "hex_pair_upper n = [''0123456789ABCDEF'' ! (n div 16), ''0123456789ABCDEF'' ! (n mod 16)]"

definition render_hex :: "rgb \<Rightarrow> string" where
  "render_hex c = hex_pair_upper (r c) @ hex_pair_upper (g c) @ hex_pair_upper (b c)"

text \<open>The integer multiples of \<open>2 powi e\<close>: the values a significand can take at unit \<open>2 powi e\<close>.\<close>

definition grid :: "int \<Rightarrow> real \<Rightarrow> bool" where
  "grid e x = (of_int \<lfloor>x / 2 powi e\<rfloor> = x / 2 powi e)"

section \<open>Properties of the binary64 rounding\<close>

subsection \<open>The binary exponent\<close>

lemma ilog2_bounds: "0 < x \<Longrightarrow> 2 powi ilog2 x \<le> x \<and> x < 2 powi (ilog2 x + 1)"
proof (induction x rule: ilog2.induct)
  case (1 x)
  show ?case
  proof (cases "2 \<le> x")
    case True
    with "1.prems" have IH: "2 powi ilog2 (x / 2) \<le> x / 2 \<and> x / 2 < 2 powi (ilog2 (x / 2) + 1)"
      by (intro "1.IH"(1)) simp_all
    have e: "ilog2 x = ilog2 (x / 2) + 1"
      using True "1.prems" by (subst ilog2.simps) simp
    show ?thesis
      using IH unfolding e by (simp add: power_int_add)
  next
    case False
    show ?thesis
    proof (cases "x < 1")
      case True
      with "1.prems" False
      have IH: "2 powi ilog2 (2 * x) \<le> 2 * x \<and> 2 * x < 2 powi (ilog2 (2 * x) + 1)"
        by (intro "1.IH"(2)) simp_all
      have e: "ilog2 (2 * x) = ilog2 x + 1"
        using True False "1.prems" by (subst (2) ilog2.simps) simp
      show ?thesis
        using IH unfolding e by (simp add: power_int_add)
    next
      case nlt: False
      have "ilog2 x = 0"
        using False nlt "1.prems" by (subst ilog2.simps) simp
      with False nlt show ?thesis by simp
    qed
  qed
qed

lemma ilog2_le: "0 < x \<Longrightarrow> x < 2 powi (j + 1) \<Longrightarrow> ilog2 x \<le> j"
proof (rule ccontr)
  assume x: "0 < x" "x < 2 powi (j + 1)" and "\<not> ilog2 x \<le> j"
  then have "j + 1 \<le> ilog2 x" by simp
  then have "(2::real) powi (j + 1) \<le> 2 powi ilog2 x"
    by (intro power_int_increasing) simp_all
  with ilog2_bounds [OF x(1)] x(2) show False by simp
qed

lemma ilog2_ge: "2 powi j \<le> x \<Longrightarrow> j \<le> ilog2 x"
proof (rule ccontr)
  assume x: "2 powi j \<le> x" and "\<not> j \<le> ilog2 x"
  then have "ilog2 x + 1 \<le> j" by simp
  then have "(2::real) powi (ilog2 x + 1) \<le> 2 powi j"
    by (intro power_int_increasing) simp_all
  moreover have "0 < x" using x(1) by (rule less_le_trans [rotated]) simp
  ultimately show False using ilog2_bounds [of x] x(1) by simp
qed

lemma ilog2_mono:
  assumes "0 < x" and "x \<le> y"
  shows "ilog2 x \<le> ilog2 y"
proof -
  have "2 powi ilog2 x \<le> x" using ilog2_bounds [OF assms(1)] by simp
  with assms(2) have "2 powi ilog2 x \<le> y" by simp
  then show ?thesis by (rule ilog2_ge)
qed

subsection \<open>Rounding to an integer\<close>

lemma rhe_of_int: "rhe (of_int n) = n"
  by (simp add: rhe_def)

lemma rhe_floor: "\<lfloor>y\<rfloor> \<le> rhe y \<and> rhe y \<le> \<lfloor>y\<rfloor> + 1"
  by (simp add: rhe_def Let_def)

lemma rhe_error: "\<bar>of_int (rhe y) - y\<bar> \<le> 1 / 2"
proof -
  have "of_int \<lfloor>y\<rfloor> \<le> y" "y < of_int \<lfloor>y\<rfloor> + 1" by linarith+
  then show ?thesis by (auto simp: rhe_def Let_def)
qed

lemma rhe_mono:
  assumes "x \<le> y"
  shows "rhe x \<le> rhe y"
proof (cases "\<lfloor>x\<rfloor> = \<lfloor>y\<rfloor>")
  case True
  with assms show ?thesis by (auto simp: rhe_def Let_def)
next
  case False
  with assms have "\<lfloor>x\<rfloor> + 1 \<le> \<lfloor>y\<rfloor>"
    using floor_mono [OF assms] by simp
  with rhe_floor [of x] rhe_floor [of y] show ?thesis by linarith
qed

lemma rhe_ge: "of_int n \<le> y \<Longrightarrow> n \<le> rhe y"
  using rhe_mono [of "of_int n" y] by (simp add: rhe_of_int)

lemma rhe_le: "y \<le> of_int n \<Longrightarrow> rhe y \<le> n"
  using rhe_mono [of y "of_int n"] by (simp add: rhe_of_int)

subsection \<open>Representable values are not changed\<close>

lemma fl_0: "fl 0 = 0"
  by (simp add: fl_def rhe_def)

lemma fl_exact:
  assumes x: "x = of_int m * 2 powi j" and m: "\<bar>m\<bar> < 2 ^ 53" and j: "- 1074 \<le> j"
  shows "fl x = x"
proof (cases "m = 0")
  case True
  with x show ?thesis by (simp add: fl_0)
next
  case False
  define e where "e = ulp_exp x"
  have pos: "0 < \<bar>x\<bar>" using False x by simp
  have "\<bar>x\<bar> = of_int \<bar>m\<bar> * 2 powi j" by (simp add: x abs_mult)
  also have "\<dots> < 2 ^ 53 * 2 powi j"
  proof -
    have "(of_int \<bar>m\<bar> :: real) < of_int (2 ^ 53)" using m by (simp only: of_int_less_iff)
    then show ?thesis by (simp add: mult_strict_right_mono)
  qed
  also have "\<dots> = 2 powi (j + 52 + 1)"
    by (simp add: power_int_add)
  finally have "ilog2 \<bar>x\<bar> \<le> j + 52" using pos by (intro ilog2_le)
  with j have ej: "e \<le> j" by (simp add: e_def ulp_exp_def)
  then obtain d where d: "j = e + int d"
    by (metis zle_iff_zadd)
  have "x / 2 powi e = of_int m * 2 ^ d"
    by (simp add: x d power_int_add)
  also have "\<dots> = of_int (m * 2 ^ d)" by simp
  finally have "rhe (x / 2 powi e) = m * 2 ^ d" by (simp only: rhe_of_int)
  then have "fl x = of_int (m * 2 ^ d) * 2 powi e"
    by (simp add: fl_def e_def)
  also have "\<dots> = x" by (simp add: x d power_int_add)
  finally show ?thesis .
qed

lemma fl_of_nat: "n < 2 ^ 53 \<Longrightarrow> fl (real n) = real n"
proof -
  assume "n < 2 ^ 53"
  then have "int n < 2 ^ 53" by (metis of_nat_less_iff of_nat_numeral of_nat_power)
  then show ?thesis by (intro fl_exact [where m = "int n" and j = 0]) simp_all
qed

lemma fl_1: "fl 1 = 1"
  using fl_of_nat [of 1] by simp

lemma fl_half: "fl (1 / 2) = 1 / 2"
  by (rule fl_exact [where m = 1 and j = "- 1"]) simp_all

subsection \<open>Multiples of a power of two\<close>

lemma grid_iff: "grid e x \<longleftrightarrow> (\<exists>m::int. x = of_int m * 2 powi e)"
proof
  assume "grid e x"
  then have "of_int \<lfloor>x / 2 powi e\<rfloor> = x / 2 powi e" unfolding grid_def .
  then have "of_int \<lfloor>x / 2 powi e\<rfloor> * 2 powi e = x / 2 powi e * 2 powi e" by (rule arg_cong)
  then have "x = of_int \<lfloor>x / 2 powi e\<rfloor> * 2 powi e" by simp
  then show "\<exists>m::int. x = of_int m * 2 powi e" ..
next
  assume "\<exists>m::int. x = of_int m * 2 powi e"
  then obtain m :: int where "x = of_int m * 2 powi e" ..
  then have "x / 2 powi e = of_int m" by simp
  then show "grid e x" unfolding grid_def by (simp only: floor_of_int)
qed

lemma grid_fl: "grid (ulp_exp x) (fl x)"
  unfolding grid_iff fl_def Let_def by blast

lemma grid_mono:
  assumes "grid e x" and "e' \<le> e"
  shows "grid e' x"
proof -
  from assms(1) obtain m where m: "x = of_int m * 2 powi e" unfolding grid_iff ..
  from assms(2) obtain d where d: "e = e' + int d" by (metis zle_iff_zadd)
  have "x = of_int (m * 2 ^ d) * 2 powi e'"
    by (simp add: m d power_int_add)
  then show ?thesis unfolding grid_iff ..
qed

lemma grid_add:
  assumes "grid e x" and "grid e y"
  shows "grid e (x + y)"
proof -
  from assms obtain m n where "x = of_int m * 2 powi e" "y = of_int n * 2 powi e"
    unfolding grid_iff by blast
  then have "x + y = of_int (m + n) * 2 powi e" by (simp add: algebra_simps)
  then show ?thesis unfolding grid_iff ..
qed

lemma grid_diff:
  assumes "grid e x" and "grid e y"
  shows "grid e (x - y)"
proof -
  from assms obtain m n where "x = of_int m * 2 powi e" "y = of_int n * 2 powi e"
    unfolding grid_iff by blast
  then have "x - y = of_int (m - n) * 2 powi e" by (simp add: algebra_simps)
  then show ?thesis unfolding grid_iff ..
qed

lemma grid_of_int: "e \<le> 0 \<Longrightarrow> grid e (of_int n)"
proof -
  assume "e \<le> 0"
  have "grid 0 (of_int n)" unfolding grid_iff by (rule exI [of _ n]) simp
  then show ?thesis using \<open>e \<le> 0\<close> by (rule grid_mono)
qed

lemma grid_one: "grid (- 53) 1"
  using grid_of_int [of "- 53" 1] by simp

lemma grid_less_step:
  assumes "grid e x" and "grid e y" and "x < y + 2 powi e"
  shows "x \<le> y"
proof -
  from assms obtain m n where m: "x = of_int m * 2 powi e" and n: "y = of_int n * 2 powi e"
    unfolding grid_iff by blast
  have p: "(0::real) < 2 powi e" by simp
  from assms(3) have "of_int m * 2 powi e < (of_int (n + 1) :: real) * 2 powi e"
    by (simp add: m n algebra_simps)
  then have "(of_int m :: real) < of_int (n + 1)"
    using p by (simp only: mult_less_cancel_right_pos)
  then have "m \<le> n" by simp
  then have "(of_int m :: real) \<le> of_int n" by simp
  then show ?thesis using p unfolding m n by (simp only: mult_le_cancel_right_pos)
qed

lemma grid_exact:
  assumes "grid e x" and "- 1074 \<le> e" and "\<bar>x\<bar> < 2 powi (e + 53)"
  shows "fl x = x"
proof -
  from assms(1) obtain m where m: "x = of_int m * 2 powi e" unfolding grid_iff ..
  have p: "(0::real) < 2 powi e" by simp
  have "\<bar>x\<bar> = of_int \<bar>m\<bar> * 2 powi e" by (simp add: m abs_mult)
  moreover have "(2::real) powi (e + 53) = of_int (2 ^ 53) * 2 powi e"
    by (simp add: power_int_add)
  ultimately have "of_int \<bar>m\<bar> * 2 powi e < (of_int (2 ^ 53) :: real) * 2 powi e"
    using assms(3) by simp
  then have "(of_int \<bar>m\<bar> :: real) < of_int (2 ^ 53)"
    using p by (simp only: mult_less_cancel_right_pos)
  then have "\<bar>m\<bar> < 2 ^ 53" by (simp only: of_int_less_iff)
  with m assms(2) show ?thesis by (intro fl_exact [where m = m and j = e])
qed

subsection \<open>The rounding error\<close>

lemma ulp_exp_le:
  assumes "x \<noteq> 0" and "\<bar>x\<bar> < 2 powi (j + 1)" and "- 1022 \<le> j"
  shows "ulp_exp x \<le> j - 52"
proof -
  have "ilog2 \<bar>x\<bar> \<le> j" using assms(1,2) by (intro ilog2_le) simp_all
  with assms(3) show ?thesis by (simp add: ulp_exp_def)
qed

lemma ulp_exp_ge:
  assumes "2 powi j \<le> \<bar>x\<bar>"
  shows "j - 52 \<le> ulp_exp x"
proof -
  have "j \<le> ilog2 \<bar>x\<bar>" using assms by (rule ilog2_ge)
  then show ?thesis by (simp add: ulp_exp_def)
qed

lemma fl_error_ulp: "\<bar>fl x - x\<bar> \<le> 2 powi ulp_exp x / 2"
proof -
  define e where "e = ulp_exp x"
  define y where "y = x / 2 powi e"
  have p: "(0::real) < 2 powi e" by simp
  have x: "x = y * 2 powi e" by (simp add: y_def)
  have "fl x = of_int (rhe y) * 2 powi e"
    by (simp add: fl_def e_def y_def Let_def)
  then have "fl x - x = (of_int (rhe y) - y) * 2 powi e"
    by (subst (2) x) (simp add: algebra_simps)
  then have "\<bar>fl x - x\<bar> = \<bar>of_int (rhe y) - y\<bar> * 2 powi e"
    by (simp add: abs_mult)
  also have "\<dots> \<le> 1 / 2 * 2 powi e"
    using rhe_error [of y] p by (intro mult_right_mono) simp_all
  finally show ?thesis by (simp add: e_def)
qed

lemma fl_error:
  assumes "\<bar>x\<bar> < 2 powi (j + 1)" and "- 1022 \<le> j"
  shows "\<bar>fl x - x\<bar> \<le> 2 powi (j - 53)"
proof (cases "x = 0")
  case True
  then show ?thesis by (simp add: fl_0)
next
  case False
  have "ulp_exp x \<le> j - 52" using False assms by (rule ulp_exp_le)
  then have "(2::real) powi ulp_exp x \<le> 2 powi (j - 52)"
    by (intro power_int_increasing) simp_all
  also have "\<dots> = 2 * 2 powi (j - 53)"
  proof -
    have "(2::real) powi ((j - 53) + 1) = 2 powi (j - 53) * 2 powi 1"
      by (rule power_int_add) simp
    then show ?thesis by simp
  qed
  finally show ?thesis using fl_error_ulp [of x] by linarith
qed

subsection \<open>Monotonicity on the non-negative numbers\<close>

lemma fl_eq: "fl x = of_int (rhe (x / 2 powi ulp_exp x)) * 2 powi ulp_exp x"
  by (simp add: fl_def Let_def)

lemma fl_lower:
  assumes "of_int n * 2 powi ulp_exp x \<le> x"
  shows "of_int n * 2 powi ulp_exp x \<le> fl x"
proof -
  have p: "(0::real) < 2 powi ulp_exp x" by simp
  from assms p have "of_int n \<le> x / 2 powi ulp_exp x"
    by (simp add: pos_le_divide_eq)
  then have "n \<le> rhe (x / 2 powi ulp_exp x)" by (rule rhe_ge)
  then have "(of_int n :: real) \<le> of_int (rhe (x / 2 powi ulp_exp x))" by simp
  then show ?thesis
    unfolding fl_eq [of x] using p by (simp only: mult_le_cancel_right_pos)
qed

lemma fl_upper:
  assumes "x \<le> of_int n * 2 powi ulp_exp x"
  shows "fl x \<le> of_int n * 2 powi ulp_exp x"
proof -
  have p: "(0::real) < 2 powi ulp_exp x" by simp
  from assms p have "x / 2 powi ulp_exp x \<le> of_int n"
    by (simp add: pos_divide_le_eq)
  then have "rhe (x / 2 powi ulp_exp x) \<le> n" by (rule rhe_le)
  then have "(of_int (rhe (x / 2 powi ulp_exp x)) :: real) \<le> of_int n" by simp
  then show ?thesis
    unfolding fl_eq [of x] using p by (simp only: mult_le_cancel_right_pos)
qed

lemma fl_nonneg: "0 \<le> x \<Longrightarrow> 0 \<le> fl x"
  using fl_lower [of 0 x] by simp

lemma fl_mono:
  assumes "0 \<le> x" and "x \<le> y"
  shows "fl x \<le> fl y"
proof (cases "x = 0")
  case True
  with assms show ?thesis by (simp add: fl_0 fl_nonneg)
next
  case False
  with assms have x: "0 < x" and y: "0 < y" by simp_all
  have ab: "\<bar>x\<bar> = x" "\<bar>y\<bar> = y" using x y by simp_all
  have le: "ulp_exp x \<le> ulp_exp y"
    using ilog2_mono [OF x assms(2)] by (simp add: ulp_exp_def ab)
  show ?thesis
  proof (cases "ulp_exp x = ulp_exp y")
    case True
    have p: "(0::real) < 2 powi ulp_exp y" by simp
    have "x / 2 powi ulp_exp y \<le> y / 2 powi ulp_exp y"
      using assms(2) p by (simp add: divide_right_mono)
    then have "rhe (x / 2 powi ulp_exp y) \<le> rhe (y / 2 powi ulp_exp y)" by (rule rhe_mono)
    then have "(of_int (rhe (x / 2 powi ulp_exp y)) :: real) \<le> of_int (rhe (y / 2 powi ulp_exp y))"
      by simp
    then show ?thesis
      unfolding fl_eq [of x] fl_eq [of y] True using p by (simp only: mult_le_cancel_right_pos)
  next
    case False
    with le have lt: "ulp_exp x < ulp_exp y" by simp
    then have ey: "ulp_exp y = ilog2 y - 52" and ex: "ilog2 x - 52 < ulp_exp y"
      unfolding ulp_exp_def ab by linarith+
    define B :: real where "B = 2 powi (ulp_exp y + 52)"
    have By: "B \<le> y"
      using ilog2_bounds [OF y] by (simp add: B_def ey)
    have xB: "x \<le> B"
    proof -
      have "x < 2 powi (ilog2 x + 1)" using ilog2_bounds [OF x] by simp
      also have "\<dots> \<le> B" unfolding B_def using ex by (intro power_int_increasing) simp_all
      finally show ?thesis by simp
    qed
    have "fl x \<le> B"
    proof -
      from lt obtain d where d: "ulp_exp y + 52 = ulp_exp x + int d"
        by (metis add.commute add_increasing2 less_imp_le zero_le_numeral zle_iff_zadd)
      have "B = of_int (2 ^ d) * 2 powi ulp_exp x"
        by (simp add: B_def d power_int_add)
      with xB fl_upper [of x "2 ^ d"] show ?thesis by simp
    qed
    moreover have "B \<le> fl y"
    proof -
      have "B = of_int (2 ^ 52) * 2 powi ulp_exp y"
        by (simp add: B_def power_int_add)
      with By fl_lower [of "2 ^ 52" y] show ?thesis by simp
    qed
    ultimately show ?thesis by simp
  qed
qed

lemma fl_le_1: "0 \<le> x \<Longrightarrow> x \<le> 1 \<Longrightarrow> fl x \<le> 1"
  using fl_mono [of x 1] by (simp add: fl_1)

subsection \<open>Evaluation on literals\<close>

lemmas float_eval = fl_def ulp_exp_def rhe_def ilog2.simps fmul_def fadd_def fsub_def fdiv_def

lemma fl_just_above_255: "fl (255 + 2 powi (- 46)) = 255"
  by (simp add: float_eval)

section \<open>The arithmetic of one pixel\<close>

subsection \<open>Black and white pixels\<close>

lemma luminance_white: "luminance 255 255 255 = 255"
  by (simp add: luminance_def float_eval)

lemma luminance_black: "luminance 0 0 0 = 0"
  by (simp add: luminance_def fmul_def fadd_def fl_0)

lemma intensity_white: "intensity 255 = 0"
  by (simp add: intensity_def float_eval)

lemma intensity_black: "intensity 0 = 1"
  by (simp add: intensity_def float_eval)

lemma blend_0: "blend t 0 = 255"
  by (simp add: blend_def float_eval)

lemma blend_1: "t \<le> 255 \<Longrightarrow> blend t 1 = real t"
proof -
  assume "t \<le> 255"
  then have "t < 2 ^ 53" by simp
  then have "fl (real t) = real t" by (rule fl_of_nat)
  then show ?thesis by (simp add: blend_def fmul_def fadd_def fsub_def fl_0)
qed

lemma toUint8Clamp_nat: "t \<le> 255 \<Longrightarrow> toUint8Clamp (real t) = of_nat t"
proof -
  assume "t \<le> 255"
  then have "min (max (real t) 0) 255 = of_int (int t)" by simp
  then show ?thesis unfolding toUint8Clamp_def by (simp only: rhe_of_int) simp
qed

lemma toUint8Clamp_255: "toUint8Clamp 255 = 255"
  using toUint8Clamp_nat [of 255] by simp

subsection \<open>The ranges of luminance and intensity\<close>

lemma unat_byte_le: "unat (w :: 8 word) \<le> 255"
  using unsigned_less [of w, where 'a = nat] by simp

lemma fmul_mono:
  assumes "0 \<le> c" and "0 \<le> x" and "x \<le> y"
  shows "fmul c x \<le> fmul c y"
  unfolding fmul_def using assms by (intro fl_mono mult_left_mono mult_nonneg_nonneg)

lemma fmul_nonneg: "0 \<le> c \<Longrightarrow> 0 \<le> x \<Longrightarrow> 0 \<le> fmul c x"
  unfolding fmul_def by (intro fl_nonneg mult_nonneg_nonneg)

lemma fadd_mono:
  assumes "0 \<le> x" and "0 \<le> y" and "x \<le> x'" and "y \<le> y'"
  shows "fadd x y \<le> fadd x' y'"
  unfolding fadd_def using assms by (intro fl_mono) simp_all

lemma fadd_nonneg: "0 \<le> x \<Longrightarrow> 0 \<le> y \<Longrightarrow> 0 \<le> fadd x y"
  unfolding fadd_def by (intro fl_nonneg) simp

lemma byte_real_nonneg: "(0::real) \<le> unsigned (w :: 8 word)"
proof -
  have "(0::real) \<le> real (unat w)" by (rule of_nat_0_le_iff)
  then show ?thesis by simp
qed

lemma byte_real_mono: "unat (v :: 8 word) \<le> unat (w :: 8 word) \<Longrightarrow> (unsigned v :: real) \<le> unsigned w"
proof -
  assume "unat v \<le> unat w"
  then have "real (unat v) \<le> real (unat w)" by (simp only: of_nat_le_iff)
  then show ?thesis by simp
qed

lemma luminance_mono:
  assumes "unat r1 \<le> unat r2" and "unat g1 \<le> unat g2" and "unat b1 \<le> unat b2"
  shows "luminance r1 g1 b1 \<le> luminance r2 g2 b2"
  unfolding luminance_def using assms
  by (intro fadd_mono fadd_nonneg fmul_mono fmul_nonneg fl_nonneg)
     (simp_all add: byte_real_nonneg byte_real_mono)

lemma luminance_nonneg: "0 \<le> luminance r_old g_old b_old"
  unfolding luminance_def
  by (intro fadd_nonneg fmul_nonneg fl_nonneg) (simp_all add: byte_real_nonneg)

lemma luminance_le: "luminance r_old g_old b_old \<le> 255"
proof -
  have "luminance r_old g_old b_old \<le> luminance 255 255 255"
    by (intro luminance_mono) (simp_all add: unat_byte_le)
  then show ?thesis by (simp add: luminance_white)
qed

lemma fsub_1_exact:
  assumes "grid (- 53) k" and "0 \<le> k" and "k \<le> 1"
  shows "fsub 1 k = 1 - k"
proof (cases "k = 0")
  case True
  then show ?thesis by (simp add: fsub_def fl_1)
next
  case False
  have g: "grid (- 53) (1 - k)" using grid_one assms(1) by (rule grid_diff)
  have b: "\<bar>1 - k\<bar> < 2 powi (- 53 + 53)" using False assms by simp
  show ?thesis unfolding fsub_def by (rule grid_exact [OF g _ b]) simp
qed

lemma intensity_range:
  assumes "0 \<le> lum" and "lum \<le> 255"
  shows "0 \<le> intensity lum \<and> intensity lum \<le> 1 \<and> grid (- 53) (intensity lum)"
proof -
  define x where "x = lum / 255"
  define q where "q = fl x"
  have x: "0 \<le> x" "x \<le> 1" using assms by (simp_all add: x_def)
  have q: "0 \<le> q" "q \<le> 1"
    using x by (simp_all add: q_def fl_nonneg fl_le_1)
  have k: "intensity lum = fl (1 - q)"
    by (simp add: intensity_def fsub_def fdiv_def q_def x_def)
  have r: "0 \<le> fl (1 - q)" "fl (1 - q) \<le> 1"
    using q by (simp_all add: fl_nonneg fl_le_1)
  have "grid (- 53) (fl (1 - q))"
  proof (cases "1 / 2 \<le> 1 - q")
    case True
    then have "2 powi (- 1) \<le> \<bar>1 - q\<bar>" by simp
    then have "- 1 - 52 \<le> ulp_exp (1 - q)" by (rule ulp_exp_ge)
    then have "- 53 \<le> ulp_exp (1 - q)" by simp
    with grid_fl show ?thesis by (rule grid_mono)
  next
    case False
    then have qh: "1 / 2 < q" by simp
    have "1 / 2 \<le> x"
    proof (rule ccontr)
      assume "\<not> 1 / 2 \<le> x"
      then have "x \<le> 1 / 2" by simp
      with x(1) have "fl x \<le> fl (1 / 2)" by (rule fl_mono)
      with qh show False unfolding q_def fl_half by simp
    qed
    then have "2 powi (- 1) \<le> \<bar>x\<bar>" by simp
    then have "- 1 - 52 \<le> ulp_exp x" by (rule ulp_exp_ge)
    then have "- 53 \<le> ulp_exp x" by simp
    with grid_fl have "grid (- 53) q"
      unfolding q_def by (rule grid_mono)
    then have "fsub 1 q = 1 - q" using q by (rule fsub_1_exact)
    moreover have "grid (- 53) (1 - q)" using grid_one \<open>grid (- 53) q\<close> by (rule grid_diff)
    ultimately show ?thesis by (simp add: fsub_def)
  qed
  with r k show ?thesis by simp
qed

subsection \<open>Two rounded terms whose exact sum is at most 255\<close>

lemma fl_sum_big_small:
  assumes "128 \<le> x" and "0 \<le> y" and "x + y \<le> 255"
  shows "fl x + fl y \<le> 255 + 2 powi (- 46)"
proof -
  have ex: "fl x \<le> x + 2 powi (- 46)"
  proof -
    have "\<bar>x\<bar> < 2 powi (7 + 1)" using assms by simp
    then have "\<bar>fl x - x\<bar> \<le> 2 powi (7 - 53)" by (rule fl_error) simp
    then have "\<bar>fl x - x\<bar> \<le> 2 powi (- 46)" by simp
    then show ?thesis by linarith
  qed
  have gx: "grid (- 45) (fl x)"
  proof -
    have "2 powi 7 \<le> \<bar>x\<bar>" using assms by simp
    then have "7 - 52 \<le> ulp_exp x" by (rule ulp_exp_ge)
    then have "- 45 \<le> ulp_exp x" by simp
    with grid_fl show ?thesis by (rule grid_mono)
  qed
  show ?thesis
  proof (cases "y = 0")
    case True
    with ex assms show ?thesis by (simp add: fl_0)
  next
    case False
    define e where "e = ulp_exp y"
    have e: "e \<le> - 46"
    proof -
      have "\<bar>y\<bar> < 2 powi (6 + 1)" using assms by simp
      with False have "ulp_exp y \<le> 6 - 52" by (rule ulp_exp_le) simp
      then show ?thesis by (simp add: e_def)
    qed
    have ey: "fl y \<le> y + 2 powi e / 2"
      using fl_error_ulp [of y] unfolding e_def by linarith
    have gy: "grid e (fl y)" unfolding e_def by (rule grid_fl)
    have "e \<le> - 45" using e by simp
    with gx have gx': "grid e (fl x)" by (rule grid_mono)
    have gs: "grid e (fl x + fl y)" using gx' gy by (rule grid_add)
    have gu: "grid e (255 + 2 powi (- 46))"
    proof -
      have "(255 + 2 powi (- 46) :: real) = of_int (255 * 2 ^ 46 + 1) * 2 powi (- 46)"
        by simp
      then have "grid (- 46) (255 + 2 powi (- 46))" unfolding grid_iff ..
      then show ?thesis using e by (rule grid_mono)
    qed
    have "fl x + fl y \<le> 255 + 2 powi (- 46) + 2 powi e / 2"
      using ex ey assms(3) by linarith
    also have "\<dots> < 255 + 2 powi (- 46) + 2 powi e"
    proof -
      have "(0::real) < 2 powi e" by simp
      then show ?thesis by simp
    qed
    finally show ?thesis using gs gu by (intro grid_less_step [of e])
  qed
qed

lemma fl_sum_small:
  assumes "0 \<le> x" and "x < 128" and "0 \<le> y" and "y < 128" and "x + y \<le> 255"
  shows "fl x + fl y \<le> 255 + 2 powi (- 46)"
proof -
  have "\<bar>x\<bar> < 2 powi (6 + 1)" using assms by simp
  then have "\<bar>fl x - x\<bar> \<le> 2 powi (6 - 53)" by (rule fl_error) simp
  then have a: "\<bar>fl x - x\<bar> \<le> 2 powi (- 47)" by simp
  have "\<bar>y\<bar> < 2 powi (6 + 1)" using assms by simp
  then have "\<bar>fl y - y\<bar> \<le> 2 powi (6 - 53)" by (rule fl_error) simp
  then have b: "\<bar>fl y - y\<bar> \<le> 2 powi (- 47)" by simp
  have h: "2 * (2::real) powi (- 47) = 2 powi (- 46)" by simp
  from a b h assms(5) show ?thesis by linarith
qed

lemma fl_sum_bound:
  assumes "0 \<le> x" and "0 \<le> y" and "x + y \<le> 255"
  shows "fl x + fl y \<le> 255 + 2 powi (- 46)"
proof -
  consider "128 \<le> x" | "128 \<le> y" | "x < 128" "y < 128" by linarith
  then show ?thesis
  proof cases
    case 1
    with assms show ?thesis by (intro fl_sum_big_small)
  next
    case 2
    with assms have "fl y + fl x \<le> 255 + 2 powi (- 46)" by (intro fl_sum_big_small) simp_all
    then show ?thesis by simp
  next
    case 3
    with assms show ?thesis by (intro fl_sum_small)
  qed
qed

lemma fl_sum_le_255:
  assumes "0 \<le> x" and "0 \<le> y" and "x + y \<le> 255"
  shows "fl (fl x + fl y) \<le> 255"
proof -
  have "0 \<le> fl x + fl y" using assms by (simp add: fl_nonneg)
  moreover have "fl x + fl y \<le> 255 + 2 powi (- 46)" using assms by (rule fl_sum_bound)
  ultimately have "fl (fl x + fl y) \<le> fl (255 + 2 powi (- 46))" by (rule fl_mono)
  then show ?thesis by (simp only: fl_just_above_255)
qed

subsection \<open>The blended channel\<close>

lemma blend_eq:
  assumes "grid (- 53) k" and "0 \<le> k" and "k \<le> 1"
  shows "blend t k = fl (fl (real t * k) + fl (255 * (1 - k)))"
  using fsub_1_exact [OF assms] by (simp add: blend_def fadd_def fmul_def)

lemma blend_nonneg:
  assumes "grid (- 53) k" and "0 \<le> k" and "k \<le> 1"
  shows "0 \<le> blend t k"
proof -
  have "0 \<le> fl (real t * k)" using assms(2) by (intro fl_nonneg) simp
  moreover have "0 \<le> fl (255 * (1 - k))" using assms(3) by (intro fl_nonneg) simp
  ultimately have "0 \<le> fl (fl (real t * k) + fl (255 * (1 - k)))" by (intro fl_nonneg) simp
  then show ?thesis by (simp only: blend_eq [OF assms])
qed

lemma blend_le:
  assumes "grid (- 53) k" and "0 \<le> k" and "k \<le> 1" and "t \<le> 255"
  shows "blend t k \<le> 255"
proof -
  have a: "0 \<le> real t * k" using assms(2) by simp
  have b: "0 \<le> 255 * (1 - k)" using assms(3) by simp
  have "real t * k \<le> 255 * k"
    using assms(2,4) by (intro mult_right_mono) simp_all
  then have "real t * k + 255 * (1 - k) \<le> 255" by simp
  with a b have "fl (fl (real t * k) + fl (255 * (1 - k))) \<le> 255" by (rule fl_sum_le_255)
  then show ?thesis by (simp only: blend_eq [OF assms(1-3)])
qed

lemma blend_white_ge:
  assumes "grid (- 53) k" and "0 \<le> k" and "k \<le> 1"
  shows "255 - 2 powi (- 44) \<le> blend 255 k"
proof -
  define x where "x = 255 * k"
  define y where "y = 255 * (1 - k)"
  have x: "0 \<le> x" "x \<le> 255" and y: "0 \<le> y" "y \<le> 255" and s: "x + y = 255"
    using assms by (simp_all add: x_def y_def)
  have "\<bar>x\<bar> < 2 powi (7 + 1)" using x by simp
  then have "\<bar>fl x - x\<bar> \<le> 2 powi (7 - 53)" by (rule fl_error) simp
  then have ex: "\<bar>fl x - x\<bar> \<le> 2 powi (- 46)" by simp
  have "\<bar>y\<bar> < 2 powi (7 + 1)" using y by simp
  then have "\<bar>fl y - y\<bar> \<le> 2 powi (7 - 53)" by (rule fl_error) simp
  then have ey: "\<bar>fl y - y\<bar> \<le> 2 powi (- 46)" by simp
  have h: "(2::real) powi (- 46) = 1 / 2 ^ 46" by simp
  have lo: "255 - 2 * 2 powi (- 46) \<le> fl x + fl y" using ex ey s by linarith
  have hi: "fl x + fl y \<le> 255 + 2 * 2 powi (- 46)" using ex ey s by linarith
  have "\<bar>fl x + fl y\<bar> < 2 powi (8 + 1)" using lo hi unfolding h by simp
  then have "\<bar>fl (fl x + fl y) - (fl x + fl y)\<bar> \<le> 2 powi (8 - 53)" by (rule fl_error) simp
  then have es: "\<bar>fl (fl x + fl y) - (fl x + fl y)\<bar> \<le> 2 powi (- 45)" by simp
  have h2: "(2::real) powi (- 44) = 2 * 2 powi (- 46) + 2 powi (- 45)" by simp
  have "255 - 2 powi (- 44) \<le> fl (fl x + fl y)" using lo es unfolding h2 by linarith
  moreover have "blend 255 k = fl (fl x + fl y)"
    using blend_eq [OF assms, of 255] by (simp add: x_def y_def)
  ultimately show ?thesis by simp
qed

lemma rhe_255:
  assumes "255 - 2 powi (- 44) \<le> v" and "v \<le> 255"
  shows "rhe v = 255"
proof (cases "v = 255")
  case True
  then show ?thesis using rhe_of_int [of 255] by simp
next
  case False
  have h: "(2::real) powi (- 44) < 1 / 2" by simp
  have "\<lfloor>v\<rfloor> = 254"
    using assms False h by (intro floor_unique) simp_all
  moreover have "1 / 2 < v - 254" using assms(1) h by linarith
  ultimately show ?thesis by (simp add: rhe_def Let_def)
qed

lemma toUint8Clamp_in_range:
  assumes "0 \<le> v" and "v \<le> 255"
  shows "toUint8Clamp v = word_of_int (rhe v) \<and> 0 \<le> rhe v \<and> rhe v \<le> 255
       \<and> uint (toUint8Clamp v) = rhe v"
proof -
  have lo: "0 \<le> rhe v" using assms(1) rhe_ge [of 0 v] by simp
  have hi: "rhe v \<le> 255" using assms(2) rhe_le [of v 255] by simp
  have m: "min (max v 0) 255 = v" using assms by simp
  have "uint (word_of_int (rhe v) :: 8 word) = rhe v"
    using lo hi by (simp add: uint_word_of_int take_bit_int_eq_self)
  with lo hi m show ?thesis by (simp add: toUint8Clamp_def)
qed

lemma toUint8Clamp_blend_white:
  assumes "grid (- 53) k" and "0 \<le> k" and "k \<le> 1"
  shows "toUint8Clamp (blend 255 k) = 255"
proof -
  have v: "0 \<le> blend 255 k" "blend 255 k \<le> 255"
    using assms by (simp_all add: blend_nonneg blend_le)
  have "rhe (blend 255 k) = 255"
    using blend_white_ge [OF assms] v(2) by (rule rhe_255)
  with toUint8Clamp_in_range [OF v] show ?thesis by simp
qed

subsection \<open>An opaque red pixel\<close>

lemma luminance_red: "luminance 255 0 0 = 5365264899825991 / 70368744177664"
  by (simp add: luminance_def float_eval)

lemma intensity_red: "intensity (5365264899825991 / 70368744177664) = 1578511669393359 / 2251799813685248"
  by (simp add: intensity_def float_eval)

lemma blend_red_255: "blend 255 (1578511669393359 / 2251799813685248) = 255"
  by (simp add: blend_def float_eval)

lemma blend_red_0: "blend 0 (1578511669393359 / 2251799813685248) = 2682632449912995 / 35184372088832"
  by (simp add: blend_def float_eval)

lemma toUint8Clamp_76: "toUint8Clamp (2682632449912995 / 35184372088832) = 76"
  by (simp add: toUint8Clamp_def rhe_def)

section \<open>The loop visits every pixel once\<close>

lemma pixel_step_outside: "j < i \<or> i + 3 \<le> j \<Longrightarrow> pixel_step c i dat ! j = dat ! j"
  by (auto simp: pixel_step_def Let_def)

lemma pixel_step_local:
  assumes "length d' = length d" and "\<forall>m<4. d' ! (p + m) = d ! (p + m)" and "m < 4"
  shows "pixel_step c p d' ! (p + m) = pixel_step c p d ! (p + m)"
proof -
  have e: "d' ! p = d ! p" "d' ! (p + 1) = d ! (p + 1)" "d' ! (p + 2) = d ! (p + 2)"
    "d' ! (p + 3) = d ! (p + 3)" "d' ! (p + m) = d ! (p + m)"
    using assms(2,3) by (auto dest: spec [of _ 0] spec [of _ 1] spec [of _ 2] spec [of _ 3])
  show ?thesis
    using assms(1,3) e by (auto simp: pixel_step_def Let_def nth_list_update)
qed

lemma length_recolor_loop: "length (recolor_loop c i dat) = length dat"
proof (induction c i dat rule: recolor_loop.induct)
  case (1 c i dat)
  then show ?case
    by (subst recolor_loop.simps) (simp add: length_pixel_step)
qed

lemma recolor_loop_below: "j < i \<Longrightarrow> recolor_loop c i dat ! j = dat ! j"
proof (induction c i dat rule: recolor_loop.induct)
  case (1 c i dat)
  show ?case
  proof (cases "i < length dat")
    case True
    then have "recolor_loop c i dat ! j = recolor_loop c (i + 4) (pixel_step c i dat) ! j"
      by (subst recolor_loop.simps) simp
    also have "\<dots> = pixel_step c i dat ! j"
      using "1.IH" [OF True] "1.prems" by simp
    also have "\<dots> = dat ! j"
      using "1.prems" by (simp add: pixel_step_outside)
    finally show ?thesis .
  next
    case False
    then show ?thesis by (subst recolor_loop.simps) simp
  qed
qed

lemma recolor_loop_pixel:
  "i \<le> p \<Longrightarrow> (p - i) mod 4 = 0 \<Longrightarrow> p + m < length dat \<Longrightarrow> m < 4 \<Longrightarrow>
   recolor_loop c i dat ! (p + m) = pixel_step c p dat ! (p + m)"
proof (induction c i dat rule: recolor_loop.induct)
  case (1 c i dat)
  from "1.prems" have lt: "i < length dat" by simp
  let ?d = "pixel_step c i dat"
  have unf: "recolor_loop c i dat = recolor_loop c (i + 4) ?d"
    using lt by (subst recolor_loop.simps) simp
  show ?case
  proof (cases "p = i")
    case True
    have "recolor_loop c (i + 4) ?d ! (i + m) = ?d ! (i + m)"
      using "1.prems" by (intro recolor_loop_below) simp
    with unf True show ?thesis by simp
  next
    case False
    with "1.prems" have ge: "i + 4 \<le> p" and md: "(p - (i + 4)) mod 4 = 0"
      by presburger+
    have "recolor_loop c (i + 4) ?d ! (p + m) = pixel_step c p ?d ! (p + m)"
      using "1.IH" [OF lt ge md] "1.prems" by (simp add: length_pixel_step)
    also have "\<dots> = pixel_step c p dat ! (p + m)"
    proof (rule pixel_step_local)
      show "length ?d = length dat" by (rule length_pixel_step)
      show "\<forall>k<4. ?d ! (p + k) = dat ! (p + k)"
        using ge by (simp add: pixel_step_outside)
      show "m < 4" by (rule "1.prems")
    qed
    finally show ?thesis using unf by simp
  qed
qed

lemma recolor_loop_nth:
  assumes "j < length dat"
  shows "recolor_loop c 0 dat ! j = pixel_step c (4 * (j div 4)) dat ! j"
proof -
  have "recolor_loop c 0 dat ! (4 * (j div 4) + j mod 4) = pixel_step c (4 * (j div 4)) dat ! (4 * (j div 4) + j mod 4)"
    using assms by (intro recolor_loop_pixel) simp_all
  then show ?thesis by simp
qed

lemma pixel_step_changed:
  assumes "pixel_step c i dat ! j \<noteq> dat ! j"
  shows "i + 3 < length dat \<and> dat ! (i + 3) \<noteq> 0 \<and> i \<le> j \<and> j < i + 3"
proof -
  have "i + 3 < length dat \<and> 0 < dat ! (i + 3)"
    using assms by (auto simp: pixel_step_def split: if_splits)
  moreover have "i \<le> j \<and> j < i + 3"
    using assms pixel_step_outside [of j i c dat] by force
  ultimately show ?thesis by auto
qed

lemma pixel_at_pixel_step:
  "4 * p + 3 < length dat \<Longrightarrow> pixel_at (pixel_step c (4 * p) dat) p = recolor_pixel c (pixel_at dat p)"
  by (simp add: pixel_at_def pixel_step_def recolor_pixel_def Let_def)

lemma pixel_at_recolor_loop:
  assumes "4 * p + 3 < length dat"
  shows "pixel_at (recolor_loop c 0 dat) p = recolor_pixel c (pixel_at dat p)"
proof -
  have "recolor_loop c 0 dat ! (4 * p + m) = pixel_step c (4 * p) dat ! (4 * p + m)" if "m < 4" for m
    using assms that by (intro recolor_loop_pixel) simp_all
  from this [of 0] this [of 1] this [of 2] this [of 3]
  have "pixel_at (recolor_loop c 0 dat) p = pixel_at (pixel_step c (4 * p) dat) p"
    by (simp add: pixel_at_def)
  then show ?thesis using assms by (simp add: pixel_at_pixel_step)
qed

lemma pixel_at_recolor:
  "4 * p + 3 < length (data img) \<Longrightarrow>
   pixel_at (data (recolor c img)) p = recolor_pixel c (pixel_at (data img) p)"
  by (simp add: recolor_def pixel_at_recolor_loop)

lemma recolor_loop_single:
  "recolor_loop c 0 [x0, x1, x2, x3] = pixel_step c 0 [x0, x1, x2, x3]"
  by (simp add: recolor_loop.simps [of c 0] recolor_loop.simps [of c 4] length_pixel_step)

lemma recolor_pixel_black_red:
  "recolor_pixel \<lparr>r = 255, g = 0, b = 0\<rparr> (0, 0, 0, 255) = (255, 0, 0, 255)"
  by (simp add: recolor_pixel_def luminance_black intensity_black blend_1 blend_1 [of 0, simplified]
      toUint8Clamp_255 toUint8Clamp_nat [of 0, simplified])

lemma recolor_pixel_red_red:
  "recolor_pixel \<lparr>r = 255, g = 0, b = 0\<rparr> (255, 0, 0, 255) = (255, 76, 76, 255)"
  by (simp add: recolor_pixel_def luminance_red intensity_red blend_red_255 blend_red_0
      toUint8Clamp_76 toUint8Clamp_255)

lemma recolor_black_red:
  "data (recolor \<lparr>r = 255, g = 0, b = 0\<rparr> \<lparr>width = 1, height = 1, data = [0, 0, 0, 255]\<rparr>)
     = [255, 0, 0, 255]"
proof -
  have "pixel_step \<lparr>r = 255, g = 0, b = 0\<rparr> 0 [0, 0, 0, 255] = [255, 0, 0, 255]"
    using pixel_at_pixel_step [of 0 "[0, 0, 0, 255]" "\<lparr>r = 255, g = 0, b = 0\<rparr>"]
    by (simp add: pixel_at_def recolor_pixel_black_red pixel_step_def Let_def)
  then show ?thesis by (simp add: recolor_def recolor_loop_single)
qed

section \<open>Black, white and transparent pixels; size and alpha\<close>

text \<open>
  Claim C1. A pixel with \<open>r = g = b = 0\<close> and alpha above \<open>0\<close> comes out with exactly the
  target colour in its R, G and B channels, for every target colour with components in
  \<open>[0, 255]\<close>; the blend weight of a black pixel is \<open>1\<close>.
\<close>

theorem black_pixel_takes_target:
  assumes "4 * p + 3 < length (data img)"
    and "pixel_at (data img) p = (0, 0, 0, alpha)" and "0 < alpha"
    and "r c \<le> 255" and "g c \<le> 255" and "b c \<le> 255"
  shows "pixel_at (data (recolor c img)) p = (of_nat (r c), of_nat (g c), of_nat (b c), alpha)
       \<and> intensity (luminance 0 0 0) = 1"
  using assms
  by (simp add: pixel_at_recolor recolor_pixel_def luminance_black intensity_black blend_1
      toUint8Clamp_nat)

text \<open>
  Claim C1, at the first pixel of the two-pixel image black, white and the target red.
\<close>

theorem black_pixel_takes_target_witness:
  "4 * 0 + 3 < length (data \<lparr>width = 2, height = 1, data = [0, 0, 0, 255, 255, 255, 255, 255]\<rparr>)
   \<and> pixel_at (data \<lparr>width = 2, height = 1, data = [0, 0, 0, 255, 255, 255, 255, 255]\<rparr>) 0
       = (0, 0, 0, 255)
   \<and> pixel_at (data (recolor \<lparr>r = 255, g = 0, b = 0\<rparr>
        \<lparr>width = 2, height = 1, data = [0, 0, 0, 255, 255, 255, 255, 255]\<rparr>)) 0
       = (255, 0, 0, 255)"
  using black_pixel_takes_target [of 0
      "\<lparr>width = 2, height = 1, data = [0, 0, 0, 255, 255, 255, 255, 255]\<rparr>" 255
      "\<lparr>r = 255, g = 0, b = 0\<rparr>"]
  by (simp add: pixel_at_def)

text \<open>
  Claim C2. A pixel with \<open>r = g = b = 255\<close> and alpha above \<open>0\<close> comes out as
  \<open>(255, 255, 255)\<close> whatever the target colour is; the blend weight of a white pixel
  is \<open>0\<close>.
\<close>

theorem white_pixel_stays_white:
  assumes "4 * p + 3 < length (data img)"
    and "pixel_at (data img) p = (255, 255, 255, alpha)" and "0 < alpha"
  shows "pixel_at (data (recolor c img)) p = (255, 255, 255, alpha)
       \<and> intensity (luminance 255 255 255) = 0"
  using assms
  by (simp add: pixel_at_recolor recolor_pixel_def luminance_white intensity_white blend_0
      toUint8Clamp_255)

text \<open>
  Claim C2, at the second pixel of the two-pixel image black, white and the target red.
\<close>

theorem white_pixel_stays_white_witness:
  "4 * 1 + 3 < length (data \<lparr>width = 2, height = 1, data = [0, 0, 0, 255, 255, 255, 255, 255]\<rparr>)
   \<and> pixel_at (data \<lparr>width = 2, height = 1, data = [0, 0, 0, 255, 255, 255, 255, 255]\<rparr>) 1
       = (255, 255, 255, 255)
   \<and> pixel_at (data (recolor \<lparr>r = 255, g = 0, b = 0\<rparr>
        \<lparr>width = 2, height = 1, data = [0, 0, 0, 255, 255, 255, 255, 255]\<rparr>)) 1
       = (255, 255, 255, 255)"
  using white_pixel_stays_white [of 1
      "\<lparr>width = 2, height = 1, data = [0, 0, 0, 255, 255, 255, 255, 255]\<rparr>" 255
      "\<lparr>r = 255, g = 0, b = 0\<rparr>"]
  by (simp add: pixel_at_def)

text \<open>
  Claim C3. A pixel whose alpha channel is \<open>0\<close> keeps all four channel values, for every
  target colour.
\<close>

theorem transparent_pixel_unchanged:
  assumes "4 * p + 3 < length (data img)" and "data img ! (4 * p + 3) = 0"
  shows "pixel_at (data (recolor c img)) p = pixel_at (data img) p"
proof -
  have "pixel_at (data (recolor c img)) p = recolor_pixel c (pixel_at (data img) p)"
    using assms(1) by (rule pixel_at_recolor)
  also have "\<dots> = pixel_at (data img) p"
    using assms(2) by (simp add: recolor_pixel_def pixel_at_def)
  finally show ?thesis .
qed

text \<open>
  Claim C3, at a transparent pixel that carries residual colour.
\<close>

theorem transparent_pixel_unchanged_witness:
  "4 * 0 + 3 < length (data \<lparr>width = 1, height = 1, data = [10, 20, 30, 0]\<rparr>)
   \<and> data \<lparr>width = 1, height = 1, data = [10, 20, 30, 0]\<rparr> ! (4 * 0 + 3) = 0
   \<and> pixel_at (data (recolor \<lparr>r = 74, g = 222, b = 128\<rparr>
        \<lparr>width = 1, height = 1, data = [10, 20, 30, 0]\<rparr>)) 0 = (10, 20, 30, 0)"
  using transparent_pixel_unchanged [of 0 "\<lparr>width = 1, height = 1, data = [10, 20, 30, 0]\<rparr>"
      "\<lparr>r = 74, g = 222, b = 128\<rparr>"]
  by (simp add: pixel_at_def)

text \<open>
  Claim C4. The transform keeps the width, the height and the length of the buffer and the
  alpha value of every pixel; a byte that changes is an R, G or B channel of a pixel whose
  alpha is not \<open>0\<close>.
\<close>

theorem recolor_preserves_size_and_alpha:
  "width (recolor c img) = width img \<and> height (recolor c img) = height img
   \<and> length (data (recolor c img)) = length (data img)
   \<and> (\<forall>p. 4 * p + 3 < length (data img) \<longrightarrow>
         data (recolor c img) ! (4 * p + 3) = data img ! (4 * p + 3))
   \<and> (\<forall>j < length (data img). data (recolor c img) ! j \<noteq> data img ! j \<longrightarrow>
         j mod 4 \<noteq> 3 \<and> 4 * (j div 4) + 3 < length (data img)
         \<and> data img ! (4 * (j div 4) + 3) \<noteq> 0)"
proof -
  have alpha: "data (recolor c img) ! (4 * p + 3) = data img ! (4 * p + 3)"
    if "4 * p + 3 < length (data img)" for p
  proof -
    have "pixel_at (data (recolor c img)) p = recolor_pixel c (pixel_at (data img) p)"
      using that by (rule pixel_at_recolor)
    then show ?thesis by (simp add: pixel_at_def recolor_pixel_def Let_def split: if_splits)
  qed
  have changed: "j mod 4 \<noteq> 3 \<and> 4 * (j div 4) + 3 < length (data img)
      \<and> data img ! (4 * (j div 4) + 3) \<noteq> 0"
    if "j < length (data img)" and "data (recolor c img) ! j \<noteq> data img ! j" for j
  proof -
    from that have "pixel_step c (4 * (j div 4)) (data img) ! j \<noteq> data img ! j"
      by (simp add: recolor_def recolor_loop_nth)
    from pixel_step_changed [OF this]
    have a: "4 * (j div 4) + 3 < length (data img)" "data img ! (4 * (j div 4) + 3) \<noteq> 0"
      and b: "j < 4 * (j div 4) + 3" by simp_all
    from b have "j mod 4 \<noteq> 3" by presburger
    with a show ?thesis by simp
  qed
  show ?thesis
    using alpha changed by (simp add: recolor_def length_recolor_loop)
qed

text \<open>
  Claim C4, at an opaque black pixel recoloured red: the alpha byte stays, the red byte
  changes.
\<close>

theorem recolor_preserves_size_and_alpha_witness:
  "width (recolor \<lparr>r = 255, g = 0, b = 0\<rparr> \<lparr>width = 1, height = 1, data = [0, 0, 0, 255]\<rparr>) = 1
   \<and> height (recolor \<lparr>r = 255, g = 0, b = 0\<rparr> \<lparr>width = 1, height = 1, data = [0, 0, 0, 255]\<rparr>) = 1
   \<and> 4 * 0 + 3 < length (data \<lparr>width = 1, height = 1, data = [0, 0, 0, 255]\<rparr>)
   \<and> data (recolor \<lparr>r = 255, g = 0, b = 0\<rparr> \<lparr>width = 1, height = 1, data = [0, 0, 0, 255]\<rparr>) ! 3 = 255
   \<and> data (recolor \<lparr>r = 255, g = 0, b = 0\<rparr> \<lparr>width = 1, height = 1, data = [0, 0, 0, 255]\<rparr>) ! 0
       \<noteq> data \<lparr>width = 1, height = 1, data = [0, 0, 0, 255]\<rparr> ! 0
   \<and> 0 mod 4 \<noteq> (3::nat)
   \<and> data \<lparr>width = 1, height = 1, data = [0, 0, 0, 255]\<rparr> ! (4 * (0 div 4) + 3) \<noteq> 0"
proof -
  let ?c = "\<lparr>r = 255, g = 0, b = 0\<rparr>"
  let ?img = "\<lparr>width = 1, height = 1, data = [0, 0, 0, 255]\<rparr>"
  note t = recolor_preserves_size_and_alpha [of ?c ?img]
  from t have "width (recolor ?c ?img) = 1" "height (recolor ?c ?img) = 1" by simp_all
  moreover from t have "4 * 0 + 3 < length (data ?img) \<longrightarrow>
      data (recolor ?c ?img) ! (4 * 0 + 3) = data ?img ! (4 * 0 + 3)" by blast
  moreover have ne: "data (recolor ?c ?img) ! 0 \<noteq> data ?img ! 0"
    using recolor_black_red by simp
  moreover from t have "0 < length (data ?img) \<longrightarrow> data (recolor ?c ?img) ! 0 \<noteq> data ?img ! 0 \<longrightarrow>
      0 mod 4 \<noteq> (3::nat) \<and> 4 * (0 div 4) + 3 < length (data ?img)
      \<and> data ?img ! (4 * (0 div 4) + 3) \<noteq> 0" by blast
  ultimately show ?thesis using recolor_black_red by simp
qed

section \<open>Uploading a file of another type\<close>

text \<open>
  Claim C5 as stated fails: after a file of type \<^verbatim>\<open>image/jpeg\<close>, the original image and the
  displayed result are not the ones from before.
\<close>

theorem unsupported_type_keeps_result_counterexample:
  "\<not> (originalImage (handleFileChange (Some \<lparr>ftype = ''image/jpeg'', readAsDataURL = Some ''data:image/jpeg;base64,AA''\<rparr>)
          \<lparr>selectedColor = ''#4ade80'', originalImage = Some ''data:image/png;base64,AA'',
           processedImage = Some ''data:image/png;base64,BB'', isLoading = False, error = None\<rparr>)
        = Some ''data:image/png;base64,AA''
     \<and> processedImage (handleFileChange (Some \<lparr>ftype = ''image/jpeg'', readAsDataURL = Some ''data:image/jpeg;base64,AA''\<rparr>)
          \<lparr>selectedColor = ''#4ade80'', originalImage = Some ''data:image/png;base64,AA'',
           processedImage = Some ''data:image/png;base64,BB'', isLoading = False, error = None\<rparr>)
        = Some ''data:image/png;base64,BB'')"
  by (simp add: handleFileChange_def)

text \<open>
  Claim C5, amended. When the declared type of the uploaded file is not \<^verbatim>\<open>image/png\<close>, the
  error message is set, the original image and the displayed result are both cleared, and
  the selected colour and the loading flag stay; the resulting state depends neither on
  the content of the file nor on the browser, so that nothing is read or decoded.
\<close>

theorem unsupported_type_clears_result:
  assumes "ftype f \<noteq> ''image/png''"
  shows "handleFileChange (Some f) s
       = s\<lparr>error := Some ''Please upload a valid PNG file.'', originalImage := None,
            processedImage := None\<rparr>
     \<and> upload br (Some f) s = handleFileChange (Some f) s
     \<and> selectedColor (upload br (Some f) s) = selectedColor s
     \<and> isLoading (upload br (Some f) s) = isLoading s"
  using assms by (simp add: handleFileChange_def upload_def useEffect_def truthy_def)

text \<open>
  Claim C5, amended, at a file of type \<^verbatim>\<open>image/jpeg\<close> uploaded over a displayed result.
\<close>

theorem unsupported_type_clears_result_witness:
  "ftype \<lparr>ftype = ''image/jpeg'', readAsDataURL = Some ''data:image/jpeg;base64,AA''\<rparr> \<noteq> ''image/png''
   \<and> upload \<lparr>canvas_current = True, ctx_2d = True, img_load = (\<lambda>u. None), toDataURL = (\<lambda>i. '''')\<rparr>
        (Some \<lparr>ftype = ''image/jpeg'', readAsDataURL = Some ''data:image/jpeg;base64,AA''\<rparr>)
        \<lparr>selectedColor = ''#4ade80'', originalImage = Some ''data:image/png;base64,AA'',
         processedImage = Some ''data:image/png;base64,BB'', isLoading = False, error = None\<rparr>
     = \<lparr>selectedColor = ''#4ade80'', originalImage = None, processedImage = None,
        isLoading = False, error = Some ''Please upload a valid PNG file.''\<rparr>"
proof -
  have h: "ftype \<lparr>ftype = ''image/jpeg'', readAsDataURL = Some ''data:image/jpeg;base64,AA''\<rparr> \<noteq> ''image/png''"
    by simp
  from unsupported_type_clears_result [OF h] show ?thesis by simp
qed

section \<open>Parsing the colour\<close>

lemma spec_hex_char_digit:
  assumes "spec_hex_char c"
  shows "hexDigit c = Some (spec_hex_value c) \<and> spec_hex_value c < 16
       \<and> ''0123456789ABCDEF'' ! spec_hex_value c = upper_char c \<and> c \<noteq> CHR ''#''"
proof -
  from assms have "c = CHR ''0'' \<or> c = CHR ''1'' \<or> c = CHR ''2'' \<or> c = CHR ''3'' \<or> c = CHR ''4''
    \<or> c = CHR ''5'' \<or> c = CHR ''6'' \<or> c = CHR ''7'' \<or> c = CHR ''8'' \<or> c = CHR ''9''
    \<or> c = CHR ''a'' \<or> c = CHR ''b'' \<or> c = CHR ''c'' \<or> c = CHR ''d'' \<or> c = CHR ''e''
    \<or> c = CHR ''f'' \<or> c = CHR ''A'' \<or> c = CHR ''B'' \<or> c = CHR ''C'' \<or> c = CHR ''D''
    \<or> c = CHR ''E'' \<or> c = CHR ''F''"
    by (simp add: spec_hex_char_def)
  then show ?thesis
    by (elim disjE) (simp_all add: hexDigit_def spec_hex_value_def upper_char_def)
qed

lemma spec_hex_char_code:
  "spec_hex_char c \<longleftrightarrow> (of_char c :: nat) \<in> {48, 49, 50, 51, 52, 53, 54, 55, 56, 57,
     97, 98, 99, 100, 101, 102, 65, 66, 67, 68, 69, 70}"
proof -
  have "spec_hex_char c \<longleftrightarrow> (of_char c :: nat) \<in> of_char ` set ''0123456789abcdefABCDEF''"
    unfolding spec_hex_char_def by (rule inj_image_mem_iff [OF inj_of_char, symmetric])
  then show ?thesis by simp
qed

lemma isHex_spec_hex_char: "isHex c \<longleftrightarrow> spec_hex_char c"
proof -
  have "isHex c \<longleftrightarrow> (48 \<le> (of_char c :: nat) \<and> (of_char c :: nat) \<le> 57)
      \<or> (97 \<le> (of_char c :: nat) \<and> (of_char c :: nat) \<le> 102)
      \<or> (65 \<le> (of_char c :: nat) \<and> (of_char c :: nat) \<le> 70)"
    by (simp add: isHex_def hexDigit_def Let_def)
  also have "\<dots> \<longleftrightarrow> spec_hex_char c"
    unfolding spec_hex_char_code by (simp only: insert_iff empty_iff) arith
  finally show ?thesis .
qed

lemma match_groups_eq:
  "match_groups s =
     (if length s = 6 \<and> list_all isHex s
      then Some (take 2 s, take 2 (drop 2 s), drop 4 s) else None)"
  by (induction s rule: match_groups.induct) auto

lemma isHex_hash: "\<not> isHex CHR ''#''"
  by (simp add: isHex_def hexDigit_def)

lemma regex_exec_eq:
  "regex_exec s =
     (if spec_color_pattern s
      then Some (take 2 (strip_hash s), take 2 (drop 2 (strip_hash s)), drop 4 (strip_hash s))
      else None)"
proof (cases s)
  case Nil
  then show ?thesis
    by (simp add: regex_exec_def spec_color_pattern_def strip_hash_def)
next
  case (Cons c cs)
  have all: "list_all isHex xs = list_all spec_hex_char xs" for xs
    by (simp add: list_all_iff isHex_spec_hex_char)
  show ?thesis
  proof (cases "c = CHR ''#''")
    case True
    then have "match_groups s = None"
      using Cons by (simp add: match_groups_eq isHex_hash)
    then show ?thesis
      using Cons True
      by (simp add: regex_exec_def spec_color_pattern_def strip_hash_def match_groups_eq all
          del: match_groups.simps)
  next
    case False
    then show ?thesis
      using Cons
      by (simp add: regex_exec_def spec_color_pattern_def strip_hash_def match_groups_eq all
          isHex_spec_hex_char del: match_groups.simps)
  qed
qed

lemma parseInt16_pair:
  assumes "spec_hex_char c1" and "spec_hex_char c2"
  shows "parseInt16 [c1, c2] = 16 * spec_hex_value c1 + spec_hex_value c2"
  using spec_hex_char_digit [OF assms(1)] spec_hex_char_digit [OF assms(2)]
  by (simp add: parseInt16_def isHex_def)

lemma hex_pair_upper_value:
  assumes "spec_hex_char c1" and "spec_hex_char c2"
  shows "hex_pair_upper (16 * spec_hex_value c1 + spec_hex_value c2) = [upper_char c1, upper_char c2]"
  using spec_hex_char_digit [OF assms(1)] spec_hex_char_digit [OF assms(2)]
  by (simp add: hex_pair_upper_def)

lemma length_6_cases:
  assumes "length xs = 6"
  obtains c1 c2 c3 c4 c5 c6 where "xs = [c1, c2, c3, c4, c5, c6]"
proof -
  from assms have "\<exists>c1 c2 c3 c4 c5 c6. xs = [c1, c2, c3, c4, c5, c6]"
    by (auto simp: numeral_eq_Suc length_Suc_conv)
  with that show ?thesis by blast
qed

text \<open>
  Claim C6. For every string that matches \<^verbatim>\<open>^#?[0-9a-fA-F]{6}$\<close>, \<open>hexToRgb\<close> succeeds,
  the digit pairs 1-2, 3-4 and 5-6 are R, G and B, each component is at most \<open>255\<close>, and
  writing the colour again as six upper-case hexadecimal digits gives the string in upper
  case without its leading \<^verbatim>\<open>#\<close>.
\<close>

theorem hexToRgb_valid_roundtrip:
  assumes "spec_color_pattern s"
  shows "\<exists>c. hexToRgb s = Some c
     \<and> r c = 16 * spec_hex_value (strip_hash s ! 0) + spec_hex_value (strip_hash s ! 1)
     \<and> g c = 16 * spec_hex_value (strip_hash s ! 2) + spec_hex_value (strip_hash s ! 3)
     \<and> b c = 16 * spec_hex_value (strip_hash s ! 4) + spec_hex_value (strip_hash s ! 5)
     \<and> r c \<le> 255 \<and> g c \<le> 255 \<and> b c \<le> 255
     \<and> render_hex c = toUpperCase (strip_hash s)"
proof -
  from assms have len: "length (strip_hash s) = 6" and hx: "list_all spec_hex_char (strip_hash s)"
    by (simp_all add: spec_color_pattern_def)
  from len obtain c1 c2 c3 c4 c5 c6 where body: "strip_hash s = [c1, c2, c3, c4, c5, c6]"
    by (rule length_6_cases)
  from hx body have h: "spec_hex_char c1" "spec_hex_char c2" "spec_hex_char c3"
    "spec_hex_char c4" "spec_hex_char c5" "spec_hex_char c6"
    by simp_all
  have lt: "spec_hex_value c1 < 16" "spec_hex_value c2 < 16" "spec_hex_value c3 < 16"
    "spec_hex_value c4 < 16" "spec_hex_value c5 < 16" "spec_hex_value c6 < 16"
    using h by (simp_all add: spec_hex_char_digit)
  have "hexToRgb s = Some \<lparr>r = parseInt16 [c1, c2], g = parseInt16 [c3, c4], b = parseInt16 [c5, c6]\<rparr>"
    using assms by (simp add: hexToRgb_def regex_exec_eq body)
  then show ?thesis
    using h lt
    by (simp add: body parseInt16_pair render_hex_def hex_pair_upper_value toUpperCase_def)
qed

text \<open>
  Claim C6, at the default colour of the component.
\<close>

theorem hexToRgb_valid_roundtrip_witness:
  "spec_color_pattern ''#4ade80''
   \<and> hexToRgb ''#4ade80'' = Some \<lparr>r = 74, g = 222, b = 128\<rparr>
   \<and> render_hex \<lparr>r = 74, g = 222, b = 128\<rparr> = ''4ADE80''"
proof -
  have p: "spec_color_pattern ''#4ade80''"
    by (simp add: spec_color_pattern_def strip_hash_def spec_hex_char_def)
  from hexToRgb_valid_roundtrip [OF p] obtain c where
    c: "hexToRgb ''#4ade80'' = Some c"
      "r c = 16 * spec_hex_value (strip_hash ''#4ade80'' ! 0) + spec_hex_value (strip_hash ''#4ade80'' ! 1)"
      "g c = 16 * spec_hex_value (strip_hash ''#4ade80'' ! 2) + spec_hex_value (strip_hash ''#4ade80'' ! 3)"
      "b c = 16 * spec_hex_value (strip_hash ''#4ade80'' ! 4) + spec_hex_value (strip_hash ''#4ade80'' ! 5)"
      "render_hex c = toUpperCase (strip_hash ''#4ade80'')"
    by blast
  from c(2-4) have "c = \<lparr>r = 74, g = 222, b = 128\<rparr>"
    by (simp add: strip_hash_def spec_hex_value_def upper_char_def)
  with c(1,5) p show ?thesis
    by (simp add: strip_hash_def toUpperCase_def upper_char_def)
qed

text \<open>
  Claim C7. For every string that does not match the pattern, \<open>hexToRgb\<close> returns null;
  \<open>processImage\<close> then reports the invalid colour format (when an image is loaded and the
  canvas is mounted; it returns at once otherwise) and leaves the displayed result as it
  was: neither the loader nor the transform takes part in the resulting state.
\<close>

theorem hexToRgb_invalid:
  assumes "\<not> spec_color_pattern (selectedColor s)"
  shows "hexToRgb (selectedColor s) = None
     \<and> processImage br s =
         (if \<not> truthy (originalImage s) \<or> \<not> canvas_current br then s
          else s\<lparr>isLoading := False, error := Some ''Invalid color format.''\<rparr>)
     \<and> processedImage (processImage br s) = processedImage s"
proof -
  have n: "hexToRgb (selectedColor s) = None"
    using assms by (simp add: hexToRgb_def regex_exec_eq)
  have p: "processImage br s =
         (if \<not> truthy (originalImage s) \<or> \<not> canvas_current br then s
          else s\<lparr>isLoading := False, error := Some ''Invalid color format.''\<rparr>)"
    by (simp add: processImage_def truthy_def n Let_def split: option.split bool.split)
  show ?thesis
    using n by (simp add: p)
qed

text \<open>
  Claim C7, at a three-digit colour, at a string with a character that is no hexadecimal
  digit, and at the empty string.
\<close>

theorem hexToRgb_invalid_witness:
  "\<not> spec_color_pattern ''#fff'' \<and> hexToRgb ''#fff'' = None
   \<and> \<not> spec_color_pattern ''#4ade8g'' \<and> hexToRgb ''#4ade8g'' = None
   \<and> \<not> spec_color_pattern '''' \<and> hexToRgb '''' = None
   \<and> processImage \<lparr>canvas_current = True, ctx_2d = True, img_load = (\<lambda>u. None), toDataURL = (\<lambda>i. '''')\<rparr>
        \<lparr>selectedColor = ''#fff'', originalImage = Some ''data:image/png;base64,AA'',
         processedImage = Some ''data:image/png;base64,BB'', isLoading = False, error = None\<rparr>
     = \<lparr>selectedColor = ''#fff'', originalImage = Some ''data:image/png;base64,AA'',
         processedImage = Some ''data:image/png;base64,BB'', isLoading = False,
         error = Some ''Invalid color format.''\<rparr>"
proof -
  let ?st = "\<lambda>c. \<lparr>selectedColor = c, originalImage = Some ''data:image/png;base64,AA'',
         processedImage = Some ''data:image/png;base64,BB'', isLoading = False, error = None\<rparr>"
  let ?br = "\<lparr>canvas_current = True, ctx_2d = True, img_load = (\<lambda>u. None), toDataURL = (\<lambda>i. '''')\<rparr>"
  have a: "\<not> spec_color_pattern (selectedColor (?st ''#fff''))"
    and b: "\<not> spec_color_pattern (selectedColor (?st ''#4ade8g''))"
    and c: "\<not> spec_color_pattern (selectedColor (?st ''''))"
    by (simp_all add: spec_color_pattern_def strip_hash_def spec_hex_char_def)
  from hexToRgb_invalid [OF a, of ?br] hexToRgb_invalid [OF b, of ?br] hexToRgb_invalid [OF c, of ?br] a b c
  show ?thesis by (simp add: truthy_def)
qed

section \<open>Channel ranges, a second pass, a white target\<close>

text \<open>
  Claim C8. For every pixel (its channels are bytes) and every target component in
  \<open>[0, 255]\<close>, the luminance computed by the loop is in \<open>[0, 255]\<close>, the blend weight is
  in \<open>[0, 1]\<close> and the blended channel is in \<open>[0, 255]\<close>, all three as the binary64
  values the code computes; the byte stored is the blended value rounded, and the clamp
  of the store never takes effect.
\<close>

theorem channel_ranges:
  assumes "t \<le> 255"
  shows "0 \<le> luminance r_old g_old b_old \<and> luminance r_old g_old b_old \<le> 255
     \<and> 0 \<le> intensity (luminance r_old g_old b_old)
     \<and> intensity (luminance r_old g_old b_old) \<le> 1
     \<and> 0 \<le> blend t (intensity (luminance r_old g_old b_old))
     \<and> blend t (intensity (luminance r_old g_old b_old)) \<le> 255
     \<and> uint (toUint8Clamp (blend t (intensity (luminance r_old g_old b_old))))
         = rhe (blend t (intensity (luminance r_old g_old b_old)))"
proof -
  define k where "k = intensity (luminance r_old g_old b_old)"
  have L: "0 \<le> luminance r_old g_old b_old" "luminance r_old g_old b_old \<le> 255"
    by (rule luminance_nonneg, rule luminance_le)
  from intensity_range [OF L] have k: "grid (- 53) k" "0 \<le> k" "k \<le> 1"
    by (simp_all add: k_def)
  have v: "0 \<le> blend t k" "blend t k \<le> 255"
    using k assms by (simp_all add: blend_nonneg blend_le)
  from toUint8Clamp_in_range [OF v] have "uint (toUint8Clamp (blend t k)) = rhe (blend t k)"
    by blast
  with L k v show ?thesis unfolding k_def by simp
qed

text \<open>
  Claim C8, at an opaque red pixel and the target component 74.
\<close>

theorem channel_ranges_witness:
  "(74::nat) \<le> 255
   \<and> luminance 255 0 0 = 5365264899825991 / 70368744177664
   \<and> 0 \<le> luminance 255 0 0 \<and> luminance 255 0 0 \<le> 255
   \<and> 0 \<le> intensity (luminance 255 0 0) \<and> intensity (luminance 255 0 0) \<le> 1
   \<and> 0 \<le> blend 74 (intensity (luminance 255 0 0))
   \<and> blend 74 (intensity (luminance 255 0 0)) \<le> 255"
  using channel_ranges [of 74 255 0 0] by (simp add: luminance_red)

text \<open>
  Claim C9. The transform is not idempotent: one opaque black pixel with the target red
  becomes \<open>(255, 0, 0, 255)\<close>, and a second pass with the same target gives
  \<open>(255, 76, 76, 255)\<close>, because it blends by the luminance of the red pixel.
\<close>

theorem recolor_not_idempotent:
  "data (recolor \<lparr>r = 255, g = 0, b = 0\<rparr> \<lparr>width = 1, height = 1, data = [0, 0, 0, 255]\<rparr>)
     = [255, 0, 0, 255]
   \<and> data (recolor \<lparr>r = 255, g = 0, b = 0\<rparr>
        (recolor \<lparr>r = 255, g = 0, b = 0\<rparr> \<lparr>width = 1, height = 1, data = [0, 0, 0, 255]\<rparr>))
     = [255, 76, 76, 255]
   \<and> recolor \<lparr>r = 255, g = 0, b = 0\<rparr>
        (recolor \<lparr>r = 255, g = 0, b = 0\<rparr> \<lparr>width = 1, height = 1, data = [0, 0, 0, 255]\<rparr>)
     \<noteq> recolor \<lparr>r = 255, g = 0, b = 0\<rparr> \<lparr>width = 1, height = 1, data = [0, 0, 0, 255]\<rparr>"
proof -
  let ?c = "\<lparr>r = 255, g = 0, b = 0\<rparr>"
  have s1: "pixel_step ?c 0 [0, 0, 0, 255] = [255, 0, 0, 255]"
    using pixel_at_pixel_step [of 0 "[0, 0, 0, 255]" ?c]
    by (simp add: pixel_at_def recolor_pixel_black_red pixel_step_def Let_def)
  have s2: "pixel_step ?c 0 [255, 0, 0, 255] = [255, 76, 76, 255]"
    using pixel_at_pixel_step [of 0 "[255, 0, 0, 255]" ?c]
    by (simp add: pixel_at_def recolor_pixel_red_red pixel_step_def Let_def)
  show ?thesis
    by (simp add: recolor_def recolor_loop_single s1 s2)
qed

text \<open>
  Claim C10. With the target colour white, every pixel whose alpha is above \<open>0\<close> comes
  out as \<open>(255, 255, 255)\<close> in R, G and B, whatever its channels were.
\<close>

theorem white_target_erases:
  assumes "4 * p + 3 < length (data img)" and "0 < data img ! (4 * p + 3)"
    and "r c = 255" and "g c = 255" and "b c = 255"
  shows "pixel_at (data (recolor c img)) p = (255, 255, 255, data img ! (4 * p + 3))"
proof -
  define k where "k = intensity (luminance (data img ! (4 * p)) (data img ! (4 * p + 1))
    (data img ! (4 * p + 2)))"
  have "grid (- 53) k \<and> 0 \<le> k \<and> k \<le> 1"
    unfolding k_def using intensity_range [OF luminance_nonneg luminance_le] by blast
  then have w: "toUint8Clamp (blend 255 k) = 255" by (simp add: toUint8Clamp_blend_white)
  have "pixel_at (data (recolor c img)) p = recolor_pixel c (pixel_at (data img) p)"
    using assms(1) by (rule pixel_at_recolor)
  also have "\<dots> = (255, 255, 255, data img ! (4 * p + 3))"
    using assms(2-5) w by (simp add: recolor_pixel_def pixel_at_def k_def Let_def)
  finally show ?thesis .
qed

text \<open>
  Claim C10, at a dark, nearly transparent pixel.
\<close>

theorem white_target_erases_witness:
  "4 * 0 + 3 < length (data \<lparr>width = 1, height = 1, data = [12, 200, 77, 9]\<rparr>)
   \<and> 0 < data \<lparr>width = 1, height = 1, data = [12, 200, 77, 9]\<rparr> ! (4 * 0 + 3)
   \<and> pixel_at (data (recolor \<lparr>r = 255, g = 255, b = 255\<rparr>
        \<lparr>width = 1, height = 1, data = [12, 200, 77, 9]\<rparr>)) 0 = (255, 255, 255, 9)"
  using white_target_erases [of 0 "\<lparr>width = 1, height = 1, data = [12, 200, 77, 9]\<rparr>"
      "\<lparr>r = 255, g = 255, b = 255\<rparr>"]
  by simp

end
